theory Spec2Isabelle
  imports Main "HOL-Library.Word"
begin

unbundle bit_operations_syntax

section \<open>Chrome cache parsing (fanficfare/chromagnon/cacheParse.py)\<close>

text \<open>
  The module reads the index file of a Chromium block-file cache, walks the collision
  chain of each bucket and offers a body accessor over the entries whose key belongs to
  fanfiction.net. The classes \<open>CacheBlock\<close>, \<open>CacheAddress\<close>, \<open>CacheEntry\<close>,
  \<open>CacheData\<close> and the function \<open>SuperFastHash.superFastHash\<close> live in sibling
  modules; here they appear as the values they hand to \<open>cacheParse.py\<close>: the fields of
  a decoded entry, a decoder from address tokens to entries, and a hash function.
\<close>

subsection \<open>Data model\<close>

type_synonym token = "32 word"
type_synonym bytes = string

text \<open>Every exception that can leave \<open>parse\<close> or \<open>get_cached_file\<close>.\<close>

datatype error =
    InvalidIndexFile      \<comment> \<open>\<open>raise Exception("Invalid Index File")\<close>\<close>
  | StructError           \<comment> \<open>\<open>struct.unpack\<close> on a short read of the index file\<close>
  | MalformedAddress      \<comment> \<open>raised by \<open>CacheAddress(...)\<close>\<close>
  | CorruptEntry          \<comment> \<open>raised by \<open>CacheEntry(...)\<close>\<close>
  | DataError             \<comment> \<open>raised by \<open>CacheData.data()\<close>\<close>
  | DecodeError           \<comment> \<open>raised by \<open>gzip.decompress\<close> or \<open>brotli_decompress\<close>\<close>

datatype data_type = HTTP_HEADER | UNKNOWN

text \<open>A \<open>CacheData\<close> object: its \<open>type\<close> and what its method \<open>data()\<close> returns or raises.\<close>

record cache_data =
  dtype :: data_type
  content :: "error + bytes"

text \<open>
  A \<open>CacheEntry\<close> object, with the fields \<open>cacheParse.py\<close> reads: \<open>hash\<close>,
  \<open>next\<close>, the result of \<open>keyToStr()\<close>, the list \<open>data\<close>, and
  \<open>httpHeader\<close> (\<open>None\<close> or an object whose \<open>headers\<close> is a dict).
\<close>

record entry =
  hash :: "32 word"
  next_tok :: token
  key :: string
  data :: "cache_data list"
  httpHeader :: "(bytes \<rightharpoonup> bytes) option"

datatype block_type = INDEX | BLOCK

text \<open>
  What \<open>parse\<close> reads under \<open>path\<close>: the header fields \<open>type\<close> and \<open>tableSize\<close>
  of \<open>CacheBlock(path/index)\<close>, the index file from byte \<open>92*4\<close> on as a list of
  unsigned 32-bit words, and \<open>decode t\<close> for \<open>CacheEntry(CacheAddress(t, path=path))\<close>,
  which returns an entry or raises.
\<close>

record cache_dir =
  btype :: block_type
  tableSize :: int
  table :: "token list"
  decode :: "token \<Rightarrow> error + entry"

text \<open>Lines printed to \<open>sys.stderr\<close> by \<open>parse\<close>.\<close>

datatype message = NotInCache bytes   \<comment> \<open>\<open>"%s is not in the cache" % url\<close>\<close>

record pstate =
  cache :: "entry list"
  stderr :: "message list"

subsection \<open>parse: full enumeration\<close>

text \<open>
  \<^verbatim>\<open>
  while entry.next != 0:
      cache.append(entry)
      entry = CacheEntry(CacheAddress(entry.next, path=path))
  cache.append(entry)
  \<close>
  The loop has no bound of its own, so the model is a partial function: \<open>None\<close> is
  the run that never leaves the loop, \<open>Some (Inl err)\<close> the one that raises.
\<close>

partial_function (option) walk_all ::
  "(token \<Rightarrow> error + entry) \<Rightarrow> entry \<Rightarrow> entry list \<Rightarrow> (error + entry list) option"
where
  "walk_all d e acc =
     (if next_tok e \<noteq> 0 then
        (case d (next_tok e) of
           Inl err \<Rightarrow> Some (Inl err)
         | Inr e' \<Rightarrow> walk_all d e' (acc @ [e]))
      else Some (Inr (acc @ [e])))"

text \<open>
  \<^verbatim>\<open>
  for key in range(cacheBlock.tableSize):
      raw = struct.unpack('I', index.read(4))[0]
      if raw != 0:
          entry = CacheEntry(CacheAddress(raw, path=path))
          ...
  \<close>
  The reads are sequential: the second argument counts the iterations left, the third
  is the rest of the file. A read at the end of the file makes \<open>struct.unpack\<close> raise.
\<close>

fun enumerate_buckets ::
  "(token \<Rightarrow> error + entry) \<Rightarrow> nat \<Rightarrow> token list \<Rightarrow> entry list \<Rightarrow> (error + entry list) option"
where
  "enumerate_buckets d 0 ws acc = Some (Inr acc)"
| "enumerate_buckets d (Suc n) [] acc = Some (Inl StructError)"
| "enumerate_buckets d (Suc n) (raw # ws) acc =
     (if raw \<noteq> 0 then
        (case d raw of
           Inl err \<Rightarrow> Some (Inl err)
         | Inr e \<Rightarrow>
            (case walk_all d e acc of
               None \<Rightarrow> None
             | Some (Inl err) \<Rightarrow> Some (Inl err)
             | Some (Inr acc') \<Rightarrow> enumerate_buckets d n ws acc'))
      else enumerate_buckets d n ws acc)"

subsection \<open>parse: targeted lookup\<close>

text \<open>\<open>key = hash & (cacheBlock.tableSize - 1)\<close>, on Python's unbounded integers.\<close>

definition bucket_index :: "32 word \<Rightarrow> int \<Rightarrow> int" where
  "bucket_index h ts = uint h AND (ts - 1)"

text \<open>
  \<open>index.seek(92*4 + key*4)\<close> followed by \<open>struct.unpack('I', index.read(4))[0]\<close>;
  \<open>key\<close> is never negative, and a read past the end of the file raises.
\<close>

definition read_bucket :: "token list \<Rightarrow> int \<Rightarrow> error + token" where
  "read_bucket ws k = (if nat k < length ws then Inr (ws ! nat k) else Inl StructError)"

text \<open>
  \<^verbatim>\<open>
  while entry.hash != hash and entry.next != 0:
      entry = CacheEntry(CacheAddress(entry.next, path=path))
  \<close>
\<close>

partial_function (option) walk_hash ::
  "(token \<Rightarrow> error + entry) \<Rightarrow> 32 word \<Rightarrow> entry \<Rightarrow> (error + entry) option"
where
  "walk_hash d h e =
     (if hash e \<noteq> h \<and> next_tok e \<noteq> 0 then
        (case d (next_tok e) of
           Inl err \<Rightarrow> Some (Inl err)
         | Inr e' \<Rightarrow> walk_hash d h e')
      else Some (Inr e))"

text \<open>
  The body of \<open>for url in urls\<close>. The url is given as its UTF-8 bytes, and
  \<open>sfh\<close> is \<open>SuperFastHash.superFastHash\<close>.
\<close>

definition lookup_url ::
  "(bytes \<Rightarrow> 32 word) \<Rightarrow> cache_dir \<Rightarrow> bytes \<Rightarrow> pstate \<Rightarrow> (error + pstate) option"
where
  "lookup_url sfh c url s =
     (let h = sfh url; k = bucket_index h (tableSize c) in
      case read_bucket (table c) k of
        Inl err \<Rightarrow> Some (Inl err)
      | Inr addr \<Rightarrow>
          if addr AND 0x80000000 = 0 then
            Some (Inr (s\<lparr>stderr := stderr s @ [NotInCache url]\<rparr>))
          else
            (case decode c addr of
               Inl err \<Rightarrow> Some (Inl err)
             | Inr e \<Rightarrow>
                (case walk_hash (decode c) h e of
                   None \<Rightarrow> None
                 | Some (Inl err) \<Rightarrow> Some (Inl err)
                 | Some (Inr e') \<Rightarrow>
                     Some (Inr (if hash e' = h then s\<lparr>cache := cache s @ [e']\<rparr> else s)))))"

fun lookup_urls ::
  "(bytes \<Rightarrow> 32 word) \<Rightarrow> cache_dir \<Rightarrow> bytes list \<Rightarrow> pstate \<Rightarrow> (error + pstate) option"
where
  "lookup_urls sfh c [] s = Some (Inr s)"
| "lookup_urls sfh c (url # urls) s =
     (case lookup_url sfh c url s of
        None \<Rightarrow> None
      | Some (Inl err) \<Rightarrow> Some (Inl err)
      | Some (Inr s') \<Rightarrow> lookup_urls sfh c urls s')"

subsection \<open>parse\<close>

text \<open>
  \<open>parse(path, urls=None)\<close>: the result is the list \<open>cache\<close>, together with what
  was printed to \<open>sys.stderr\<close>. \<open>range(tableSize)\<close> is empty for a negative size.
\<close>

definition parse ::
  "(bytes \<Rightarrow> 32 word) \<Rightarrow> cache_dir \<Rightarrow> bytes list option \<Rightarrow> (error + pstate) option"
where
  "parse sfh c urls =
     (if btype c \<noteq> INDEX then Some (Inl InvalidIndexFile)
      else case urls of
        None \<Rightarrow>
          (case enumerate_buckets (decode c) (nat (tableSize c)) (table c) [] of
             None \<Rightarrow> None
           | Some (Inl err) \<Rightarrow> Some (Inl err)
           | Some (Inr es) \<Rightarrow> Some (Inr \<lparr>cache = es, stderr = []\<rparr>))
      | Some us \<Rightarrow> lookup_urls sfh c us \<lparr>cache = [], stderr = []\<rparr>)"

subsection \<open>ChromeCache\<close>

text \<open>\<open>'fanfiction.net' not in key\<close>: Python's substring test.\<close>

fun starts_with :: "string \<Rightarrow> string \<Rightarrow> bool" where
  "starts_with [] s = True"
| "starts_with (p # ps) [] = False"
| "starts_with (p # ps) (c # cs) = (p = c \<and> starts_with ps cs)"

fun str_contains :: "string \<Rightarrow> string \<Rightarrow> bool" where
  "str_contains p [] = (p = [])"
| "str_contains p (c # cs) = (starts_with p (c # cs) \<or> str_contains p cs)"

text \<open>
  \<open>re.sub(r'^(https://www.fanfiction.net/s/\d+/\d+/).+$', r'\1', key)\<close>.
  The pattern is anchored at the start of the string, so it matches at most once, at
  position 0. Its group is a sequence of literal characters, of dots (any character
  but a newline; the two dots of the pattern are not escaped) and of \<open>\d+\<close>. Each
  \<open>\d+\<close> is followed by the literal \<open>/\<close>, which is no digit, so the only run that
  can match is the longest one and the matcher needs no backtracking. Keys are strings
  of 8-bit characters here; among these \<open>\d\<close> matches the ten ASCII digits.
\<close>

datatype pat = Lit char | Dot | Digits

definition newline :: char where
  "newline = CHR 0x0A"

definition is_digit :: "char \<Rightarrow> bool" where
  "is_digit c = (c \<in> set ''0123456789'')"

text \<open>\<open>match_pat ps s\<close> is the matched prefix of \<open>s\<close> and the rest, if \<open>ps\<close> matches.\<close>

fun match_pat :: "pat list \<Rightarrow> string \<Rightarrow> (string \<times> string) option" where
  "match_pat [] s = Some ([], s)"
| "match_pat (Lit c # ps) [] = None"
| "match_pat (Lit c # ps) (x # xs) =
     (if x = c then
        (case match_pat ps xs of None \<Rightarrow> None | Some (m, r) \<Rightarrow> Some (x # m, r))
      else None)"
| "match_pat (Dot # ps) [] = None"
| "match_pat (Dot # ps) (x # xs) =
     (if x \<noteq> newline then
        (case match_pat ps xs of None \<Rightarrow> None | Some (m, r) \<Rightarrow> Some (x # m, r))
      else None)"
| "match_pat (Digits # ps) s =
     (if takeWhile is_digit s = [] then None
      else
        (case match_pat ps (dropWhile is_digit s) of
           None \<Rightarrow> None
         | Some (m, r) \<Rightarrow> Some (takeWhile is_digit s @ m, r)))"

definition story_pat :: "pat list" where
  "story_pat =
     map Lit ''https://www'' @ [Dot] @ map Lit ''fanfiction'' @ [Dot] @ map Lit ''net/s/''
     @ [Digits, Lit (CHR ''/''), Digits, Lit (CHR ''/'')]"

text \<open>
  \<open>.+$\<close> on the rest of the key: one or more characters other than a newline, up to
  the end of the string or to the newline that ends it. The result is the part of the
  string that the match leaves untouched (nothing, or that last newline).
\<close>

definition match_tail :: "string \<Rightarrow> string option" where
  "match_tail r =
     (if r \<noteq> [] \<and> newline \<notin> set r then Some []
      else if r \<noteq> [] \<and> last r = newline \<and> butlast r \<noteq> [] \<and> newline \<notin> set (butlast r)
      then Some [newline]
      else None)"

definition normkey :: "string \<Rightarrow> string" where
  "normkey k =
     (case match_pat story_pat k of
        None \<Rightarrow> k
      | Some (g, r) \<Rightarrow> (case match_tail r of None \<Rightarrow> k | Some t \<Rightarrow> g @ t))"

text \<open>
  \<^verbatim>\<open>
  for entry in self.cache:
      key = entry.keyToStr()
      if 'fanfiction.net' not in key:
          continue
      self.hash_cache[key] = entry
      normkey = re.sub(...)
      self.hash_cache[normkey] = entry
  \<close>
\<close>

fun index_entries :: "entry list \<Rightarrow> (string \<rightharpoonup> entry) \<Rightarrow> (string \<rightharpoonup> entry)" where
  "index_entries [] hc = hc"
| "index_entries (e # es) hc =
     (if \<not> str_contains ''fanfiction.net'' (key e) then index_entries es hc
      else index_entries es (hc(key e \<mapsto> e, normkey (key e) \<mapsto> e)))"

record chrome_cache =
  cc_cache :: "entry list"
  hash_cache :: "string \<rightharpoonup> entry"

text \<open>\<open>ChromeCache.__init__\<close>, from the list that \<open>parse(path)\<close> returned.\<close>

definition ChromeCache :: "entry list \<Rightarrow> chrome_cache" where
  "ChromeCache es = \<lparr>cc_cache = es, hash_cache = index_entries es Map.empty\<rparr>"

text \<open>
  The two decompressors are library functions: \<open>None\<close> stands for the exception they
  raise on a body they cannot inflate. \<open>brotli_decompress\<close> is wrapped in
  \<open>do_cprofile\<close>, which prints a line \<open>time:...\<close> whether the call returns or raises.
\<close>

record codecs =
  gzip_decompress :: "bytes \<Rightarrow> bytes option"
  brotli_decompress :: "bytes \<Rightarrow> bytes option"

datatype out_line = TimeLine   \<comment> \<open>\<open>print("time:%s"%t)\<close>\<close>

definition decompressed :: "bytes option \<Rightarrow> error + bytes option" where
  "decompressed r = (case r of None \<Rightarrow> Inl DecodeError | Some b \<Rightarrow> Inr (Some b))"

text \<open>
  The loop \<open>for i in range(len(entry.data))\<close> of \<open>get_cached_file\<close>: it returns at
  the first data stream of type \<open>UNKNOWN\<close>, and falls through to \<open>return None\<close>
  when there is none. The result comes with the lines printed on the way.
\<close>

fun scan_data ::
  "codecs \<Rightarrow> entry \<Rightarrow> cache_data list \<Rightarrow> (error + bytes option) \<times> out_line list"
where
  "scan_data cd e [] = (Inr None, [])"
| "scan_data cd e (x # xs) =
     (if dtype x = UNKNOWN then
        (case content x of
           Inl err \<Rightarrow> (Inl err, [])
         | Inr b \<Rightarrow>
            (case httpHeader e of
               None \<Rightarrow> (Inr (Some b), [])
             | Some hs \<Rightarrow>
                (case hs ''content-encoding'' of
                   None \<Rightarrow> (Inr (Some b), [])
                 | Some enc \<Rightarrow>
                     if enc = ''gzip'' then (decompressed (gzip_decompress cd b), [])
                     else if enc = ''br'' then (decompressed (brotli_decompress cd b), [TimeLine])
                     else (Inr (Some b), []))))
      else scan_data cd e xs)"

definition get_cached_file ::
  "codecs \<Rightarrow> chrome_cache \<Rightarrow> string \<Rightarrow> (error + bytes option) \<times> out_line list"
where
  "get_cached_file cd cc url =
     (case hash_cache cc url of
        None \<Rightarrow> (Inr None, [])
      | Some e \<Rightarrow> scan_data cd e (data e))"

subsection \<open>Collision chains\<close>

text \<open>
  \<open>chain_seg d t es t'\<close>: following the tokens from \<open>t\<close> decodes the entries \<open>es\<close>,
  one after the other, and the \<open>next\<close> field of the last one is \<open>t'\<close>. With
  \<open>t' = 0\<close> the list \<open>es\<close> is the whole chain that starts at \<open>t\<close>; with \<open>t' = t\<close>
  and \<open>es\<close> not empty the \<open>next\<close> fields form a cycle.
\<close>

fun chain_seg :: "(token \<Rightarrow> error + entry) \<Rightarrow> token \<Rightarrow> entry list \<Rightarrow> token \<Rightarrow> bool" where
  "chain_seg d t [] t' = (t = t')"
| "chain_seg d t (e # es) t' = (t \<noteq> 0 \<and> d t = Inr e \<and> chain_seg d (next_tok e) es t')"

subsection \<open>Sample caches\<close>

text \<open>
  A table of four buckets whose bucket 2 holds a chain of three entries with the hashes
  2, 6 and 10, which all select bucket 2.
\<close>

definition ent1 :: entry where
  "ent1 = \<lparr>hash = 2, next_tok = 0x80000002, key = ''https://a.example/one'', data = [],
           httpHeader = None\<rparr>"

definition ent2 :: entry where
  "ent2 = \<lparr>hash = 6, next_tok = 0x80000003, key = ''https://a.example/two'', data = [],
           httpHeader = None\<rparr>"

definition ent3 :: entry where
  "ent3 = \<lparr>hash = 10, next_tok = 0, key = ''https://a.example/three'', data = [],
           httpHeader = None\<rparr>"

definition sample_decode :: "token \<Rightarrow> error + entry" where
  "sample_decode t =
     (if t = 0x80000001 then Inr ent1
      else if t = 0x80000002 then Inr ent2
      else if t = 0x80000003 then Inr ent3
      else if t = 0x80000009 then Inl CorruptEntry
      else Inl MalformedAddress)"

definition sample_dir :: cache_dir where
  "sample_dir = \<lparr>btype = INDEX, tableSize = 4, table = [0, 0, 0x80000001, 0],
                 decode = sample_decode\<rparr>"

text \<open>A stand-in for the hash function: three urls with the hashes 6, 7 and 1.\<close>

definition sample_hash :: "bytes \<Rightarrow> 32 word" where
  "sample_hash u =
     (if u = ''https://a.example/two'' then 6
      else if u = ''https://a.example/absent'' then 7
      else 1)"

text \<open>Two entries whose \<open>next\<close> fields point at each other.\<close>

definition cyc1 :: entry where
  "cyc1 = \<lparr>hash = 4, next_tok = 0x80000012, key = ''https://a.example/c1'', data = [],
           httpHeader = None\<rparr>"

definition cyc2 :: entry where
  "cyc2 = \<lparr>hash = 8, next_tok = 0x80000011, key = ''https://a.example/c2'', data = [],
           httpHeader = None\<rparr>"

definition cyclic_decode :: "token \<Rightarrow> error + entry" where
  "cyclic_decode t =
     (if t = 0x80000011 then Inr cyc1
      else if t = 0x80000012 then Inr cyc2
      else Inl MalformedAddress)"

definition cyclic_dir :: cache_dir where
  "cyclic_dir = \<lparr>btype = INDEX, tableSize = 1, table = [0x80000011], decode = cyclic_decode\<rparr>"

text \<open>A table whose first bucket points at a record that does not decode.\<close>

definition damaged_dir :: cache_dir where
  "damaged_dir = \<lparr>btype = INDEX, tableSize = 2, table = [0x80000009, 0x80000001],
                  decode = sample_decode\<rparr>"

text \<open>A table whose only bucket holds a token that is not zero and has its top bit clear.\<close>

definition unused_dir :: "(token \<Rightarrow> error + entry) \<Rightarrow> cache_dir" where
  "unused_dir d = \<lparr>btype = INDEX, tableSize = 1, table = [0x00000001], decode = d\<rparr>"

definition lenient_decode :: "token \<Rightarrow> error + entry" where
  "lenient_decode t = (if t = 0x00000001 then Inr ent3 else sample_decode t)"

text \<open>
  Entries with a body. The decompressors are stand-ins for the library functions: each
  inflates one body and raises on every other input.
\<close>

definition sample_codecs :: codecs where
  "sample_codecs =
     \<lparr>gzip_decompress = (\<lambda>b. if b = ''gz:chapter one'' then Some ''chapter one'' else None),
      brotli_decompress = (\<lambda>b. if b = ''br:chapter two'' then Some ''chapter two'' else None)\<rparr>"

definition body_entry :: "string \<Rightarrow> bytes \<Rightarrow> bytes \<Rightarrow> entry" where
  "body_entry k enc b =
     \<lparr>hash = 3, next_tok = 0, key = k,
      data = [\<lparr>dtype = HTTP_HEADER, content = Inr ''HTTP/1.1 200 OK''\<rparr>,
              \<lparr>dtype = UNKNOWN, content = Inr b\<rparr>],
      httpHeader = Some [''content-encoding'' \<mapsto> enc]\<rparr>"

definition gzip_entry :: entry where
  "gzip_entry = body_entry ''https://www.fanfiction.net/s/12/3/Title'' ''gzip'' ''truncated''"

definition br_entry :: entry where
  "br_entry = body_entry ''https://www.fanfiction.net/s/12/4/Title'' ''br'' ''truncated''"

definition deflate_entry :: entry where
  "deflate_entry = body_entry ''https://www.fanfiction.net/s/12/5/Title'' ''deflate'' ''deflated''"

text \<open>
  An entry of another host, whose key mentions fanfiction.net in its query string only.
\<close>

definition foreign_entry :: entry where
  "foreign_entry =
     \<lparr>hash = 5, next_tok = 0, key = ''https://www.fanfiction-net/s/12/3/?from=fanfiction.net'',
      data = [\<lparr>dtype = UNKNOWN, content = Inr ''another site''\<rparr>],
      httpHeader = None\<rparr>"

section \<open>Properties\<close>

subsection \<open>Chains and the two loops\<close>

lemma chain_seg_append:
  "chain_seg d t (xs @ ys) t' = (\<exists>u. chain_seg d t xs u \<and> chain_seg d u ys t')"
  by (induction xs arbitrary: t) auto

lemma chain_seg_zero: "chain_seg d 0 es t' \<Longrightarrow> es = []"
  by (cases es) simp_all

lemma chain_seg_unique:
  "chain_seg d t es 0 \<Longrightarrow> chain_seg d t es' 0 \<Longrightarrow> es = es'"
proof (induction es arbitrary: t es')
  case Nil
  then show ?case by (cases es') simp_all
next
  case (Cons e es)
  then show ?case by (cases es') auto
qed

lemma walk_all_chain:
  "chain_seg d (next_tok e) es 0 \<Longrightarrow> walk_all d e acc = Some (Inr (acc @ e # es))"
proof (induction es arbitrary: e acc)
  case Nil
  then show ?case by (subst walk_all.simps) simp
next
  case (Cons x xs)
  then show ?case by (subst walk_all.simps) simp
qed

lemma walk_all_error:
  "chain_seg d (next_tok e) es t \<Longrightarrow> t \<noteq> 0 \<Longrightarrow> d t = Inl err \<Longrightarrow>
   walk_all d e acc = Some (Inl err)"
proof (induction es arbitrary: e acc)
  case Nil
  then show ?case by (subst walk_all.simps) simp
next
  case (Cons x xs)
  then show ?case by (subst walk_all.simps) simp
qed

lemma walk_hash_stop:
  "hash e = h \<or> next_tok e = 0 \<Longrightarrow> walk_hash d h e = Some (Inr e)"
  by (subst walk_hash.simps) auto

lemma walk_hash_step:
  "hash e \<noteq> h \<Longrightarrow> next_tok e \<noteq> 0 \<Longrightarrow> d (next_tok e) = Inr e' \<Longrightarrow>
   walk_hash d h e = walk_hash d h e'"
  by (subst walk_hash.simps) simp

lemma walk_hash_chain:
  "chain_seg d (next_tok e) es t \<Longrightarrow> t = 0 \<or> (\<exists>x \<in> set (e # es). hash x = h) \<Longrightarrow>
   walk_hash d h e =
     Some (Inr (case find (\<lambda>x. hash x = h) (e # es) of Some m \<Rightarrow> m | None \<Rightarrow> last (e # es)))"
proof (induction es arbitrary: e)
  case Nil
  then show ?case by (auto simp: walk_hash_stop)
next
  case (Cons x xs)
  show ?case
  proof (cases "hash e = h")
    case True
    then show ?thesis by (simp add: walk_hash_stop)
  next
    case False
    from Cons.prems(1) have nz: "next_tok e \<noteq> 0" and dx: "d (next_tok e) = Inr x"
      and seg: "chain_seg d (next_tok x) xs t" by simp_all
    from Cons.prems(2) False have "t = 0 \<or> (\<exists>y \<in> set (x # xs). hash y = h)" by auto
    from Cons.IH [OF seg this] False nz dx show ?thesis
      by (simp add: walk_hash_step split: option.splits)
  qed
qed

text \<open>
  Conversely, a run of the enumeration loop that returns has walked a chain to its end,
  and one that raises has met a token that does not decode.
\<close>

lemma walk_all_returns_chain:
  assumes "walk_all d e acc = Some r"
  shows "case r of Inr es' \<Rightarrow> (\<exists>es. chain_seg d (next_tok e) es 0 \<and> es' = acc @ e # es)
         | Inl err \<Rightarrow> (\<exists>es t. chain_seg d (next_tok e) es t \<and> t \<noteq> 0 \<and> d t = Inl err)"
proof (rule walk_all.raw_induct
    [where P = "\<lambda>d e acc r. case r of
         Inr es' \<Rightarrow> (\<exists>es. chain_seg d (next_tok e) es 0 \<and> es' = acc @ e # es)
       | Inl err \<Rightarrow> (\<exists>es t. chain_seg d (next_tok e) es t \<and> t \<noteq> 0 \<and> d t = Inl err)",
      OF _ assms])
  fix w and d :: "token \<Rightarrow> error + entry" and e :: entry and acc :: "entry list"
    and r :: "error + entry list"
  assume IH: "\<And>d e acc r. w d e acc = Some r \<Longrightarrow>
      (case r of Inr es' \<Rightarrow> (\<exists>es. chain_seg d (next_tok e) es 0 \<and> es' = acc @ e # es)
       | Inl err \<Rightarrow> (\<exists>es t. chain_seg d (next_tok e) es t \<and> t \<noteq> 0 \<and> d t = Inl err))"
    and step: "(if next_tok e \<noteq> 0 then
                  (case d (next_tok e) of Inl err \<Rightarrow> Some (Inl err)
                   | Inr e' \<Rightarrow> w d e' (acc @ [e]))
                else Some (Inr (acc @ [e]))) = Some r"
  show "case r of Inr es' \<Rightarrow> (\<exists>es. chain_seg d (next_tok e) es 0 \<and> es' = acc @ e # es)
         | Inl err \<Rightarrow> (\<exists>es t. chain_seg d (next_tok e) es t \<and> t \<noteq> 0 \<and> d t = Inl err)"
  proof (cases "next_tok e = 0")
    case True
    with step have "r = Inr (acc @ [e])" by simp
    moreover from True have "chain_seg d (next_tok e) [] 0 \<and> acc @ [e] = acc @ e # []" by simp
    then have "\<exists>es. chain_seg d (next_tok e) es 0 \<and> acc @ [e] = acc @ e # es" by blast
    ultimately show ?thesis by simp
  next
    case nz: False
    show ?thesis
    proof (cases "d (next_tok e)")
      case (Inl err)
      with nz step have "r = Inl err" by simp
      moreover have "chain_seg d (next_tok e) [] (next_tok e) \<and> next_tok e \<noteq> 0
          \<and> d (next_tok e) = Inl err" using nz Inl by simp
      then have "\<exists>es t. chain_seg d (next_tok e) es t \<and> t \<noteq> 0 \<and> d t = Inl err"
        by blast
      ultimately show ?thesis by simp
    next
      case (Inr e')
      with nz step have "w d e' (acc @ [e]) = Some r" by simp
      note ih = IH [OF this]
      show ?thesis
      proof (cases r)
        case (Inl err)
        with ih obtain es t where "chain_seg d (next_tok e') es t" "t \<noteq> 0" "d t = Inl err"
          by auto
        with nz Inr have "chain_seg d (next_tok e) (e' # es) t \<and> t \<noteq> 0 \<and> d t = Inl err"
          by simp
        then have "\<exists>es t. chain_seg d (next_tok e) es t \<and> t \<noteq> 0 \<and> d t = Inl err"
          by blast
        with Inl show ?thesis by simp
      next
        case r: (Inr es')
        with ih obtain es where "chain_seg d (next_tok e') es 0" "es' = (acc @ [e]) @ e' # es"
          by auto
        with nz Inr have "chain_seg d (next_tok e) (e' # es) 0 \<and> es' = acc @ e # e' # es"
          by simp
        then have "\<exists>es. chain_seg d (next_tok e) es 0 \<and> es' = acc @ e # es"
          by blast
        with r show ?thesis by simp
      qed
    qed
  qed
qed

text \<open>On a cycle neither loop returns: no finite unfolding of the loop yields a value.\<close>

lemma walk_all_cycle_aux:
  assumes "walk_all d e acc = Some r"
  shows "\<not> (\<exists>t es. chain_seg d t (e # es) t)"
proof (rule walk_all.raw_induct
    [where P = "\<lambda>d e acc r. \<not> (\<exists>t es. chain_seg d t (e # es) t)", OF _ assms])
  fix w and d :: "token \<Rightarrow> error + entry" and e :: entry and acc :: "entry list"
    and r :: "error + entry list"
  assume IH: "\<And>d e acc r. w d e acc = Some r \<Longrightarrow> \<not> (\<exists>t es. chain_seg d t (e # es) t)"
    and step: "(if next_tok e \<noteq> 0 then
                  (case d (next_tok e) of Inl err \<Rightarrow> Some (Inl err)
                   | Inr e' \<Rightarrow> w d e' (acc @ [e]))
                else Some (Inr (acc @ [e]))) = Some r"
  show "\<not> (\<exists>t es. chain_seg d t (e # es) t)"
  proof
    assume "\<exists>t es. chain_seg d t (e # es) t"
    then obtain t es where c: "chain_seg d t (e # es) t" by blast
    then have t: "t \<noteq> 0" "d t = Inr e" and rest: "chain_seg d (next_tok e) es t" by simp_all
    show False
    proof (cases es)
      case Nil
      with rest have "next_tok e = t" by simp
      with t step have "w d e (acc @ [e]) = Some r" by simp
      from IH [OF this] c show False by blast
    next
      case (Cons x xs)
      with rest have nz: "next_tok e \<noteq> 0" and dx: "d (next_tok e) = Inr x"
        and seg: "chain_seg d (next_tok x) xs t" by simp_all
      from nz dx step have "w d x (acc @ [e]) = Some r" by simp
      moreover have "chain_seg d (next_tok e) (x # xs @ [e]) (next_tok e)"
        using nz dx seg t by (auto simp: chain_seg_append)
      ultimately show False using IH by blast
    qed
  qed
qed

lemma walk_all_cycle: "chain_seg d t (e # es) t \<Longrightarrow> walk_all d e acc = None"
  using walk_all_cycle_aux [of d e acc] by (cases "walk_all d e acc") auto

lemma walk_hash_cycle_aux:
  assumes "walk_hash d h e = Some r"
  shows "\<not> (\<exists>t es. chain_seg d t (e # es) t \<and> (\<forall>x \<in> set (e # es). hash x \<noteq> h))"
proof (rule walk_hash.raw_induct
    [where P = "\<lambda>d h e r.
        \<not> (\<exists>t es. chain_seg d t (e # es) t \<and> (\<forall>x \<in> set (e # es). hash x \<noteq> h))",
      OF _ assms])
  fix w and d :: "token \<Rightarrow> error + entry" and h :: "32 word" and e :: entry
    and r :: "error + entry"
  assume IH: "\<And>d h e r. w d h e = Some r \<Longrightarrow>
      \<not> (\<exists>t es. chain_seg d t (e # es) t \<and> (\<forall>x \<in> set (e # es). hash x \<noteq> h))"
    and step: "(if hash e \<noteq> h \<and> next_tok e \<noteq> 0 then
                  (case d (next_tok e) of Inl err \<Rightarrow> Some (Inl err) | Inr e' \<Rightarrow> w d h e')
                else Some (Inr e)) = Some r"
  show "\<not> (\<exists>t es. chain_seg d t (e # es) t \<and> (\<forall>x \<in> set (e # es). hash x \<noteq> h))"
  proof
    assume "\<exists>t es. chain_seg d t (e # es) t \<and> (\<forall>x \<in> set (e # es). hash x \<noteq> h)"
    then obtain t es where c: "chain_seg d t (e # es) t"
      and nh: "\<forall>x \<in> set (e # es). hash x \<noteq> h" by blast
    then have t: "t \<noteq> 0" "d t = Inr e" and rest: "chain_seg d (next_tok e) es t" by simp_all
    from nh have he: "hash e \<noteq> h" by simp
    show False
    proof (cases es)
      case Nil
      with rest have "next_tok e = t" by simp
      with t he step have "w d h e = Some r" by simp
      from IH [OF this] c nh show False by blast
    next
      case (Cons x xs)
      with rest have nz: "next_tok e \<noteq> 0" and dx: "d (next_tok e) = Inr x"
        and seg: "chain_seg d (next_tok x) xs t" by simp_all
      from nz dx he step have "w d h x = Some r" by simp
      moreover have "chain_seg d (next_tok e) (x # xs @ [e]) (next_tok e)"
        using nz dx seg t by (auto simp: chain_seg_append)
      moreover have "\<forall>y \<in> set (x # xs @ [e]). hash y \<noteq> h" using nh Cons by auto
      ultimately show False using IH by blast
    qed
  qed
qed

lemma walk_hash_cycle:
  "chain_seg d t (e # es) t \<Longrightarrow> \<forall>x \<in> set (e # es). hash x \<noteq> h \<Longrightarrow> walk_hash d h e = None"
  using walk_hash_cycle_aux [of d h e] by (cases "walk_hash d h e") auto

subsection \<open>The loop over the buckets\<close>

lemma enumerate_buckets_numeral:
  "enumerate_buckets d (numeral k) ws acc = enumerate_buckets d (Suc (pred_numeral k)) ws acc"
  by (simp add: numeral_eq_Suc)

lemma enumerate_prefix:
  "list_all2 (\<lambda>t es. chain_seg d t es 0) pre ess \<Longrightarrow> length pre \<le> n \<Longrightarrow>
   enumerate_buckets d n (pre @ rest) acc =
   enumerate_buckets d (n - length pre) rest (acc @ concat ess)"
proof (induction pre arbitrary: ess n acc)
  case Nil
  then show ?case by simp
next
  case (Cons raw pre)
  from Cons.prems(2) obtain m where n: "n = Suc m" and m: "length pre \<le> m"
    by (cases n) auto
  from Cons.prems(1) obtain c cs where ess: "ess = c # cs"
    and c: "chain_seg d raw c 0"
    and cs: "list_all2 (\<lambda>t es. chain_seg d t es 0) pre cs"
    by (auto simp: list_all2_Cons1)
  show ?case
  proof (cases "raw = 0")
    case True
    with c have "c = []" by (auto dest: chain_seg_zero)
    with True n ess Cons.IH [OF cs m] show ?thesis by simp
  next
    case False
    with c obtain e es where ce: "c = e # es" and de: "d raw = Inr e"
      and seg: "chain_seg d (next_tok e) es 0" by (cases c) auto
    from walk_all_chain [OF seg] have "walk_all d e acc = Some (Inr (acc @ c))"
      by (simp add: ce)
    with False n ess de Cons.IH [OF cs m] show ?thesis by simp
  qed
qed

lemma enumerate_chains:
  assumes "n \<le> length ws"
    and "list_all2 (\<lambda>t es. chain_seg d t es 0) (take n ws) ess"
  shows "enumerate_buckets d n ws acc = Some (Inr (acc @ concat ess))"
proof -
  from assms(1) have "length (take n ws) \<le> n" and "n - length (take n ws) = 0" by simp_all
  with enumerate_prefix [OF assms(2), of n "drop n ws" acc] show ?thesis by simp
qed

lemma enumerate_decode_error:
  assumes "chain_seg d raw es t" and "t \<noteq> 0" and "d t = Inl err"
  shows "enumerate_buckets d (Suc n) (raw # ws) acc = Some (Inl err)"
proof (cases es)
  case Nil
  with assms show ?thesis by simp
next
  case (Cons e es')
  with assms(1) have raw: "raw \<noteq> 0" "d raw = Inr e" and seg: "chain_seg d (next_tok e) es' t"
    by simp_all
  from walk_all_error [OF seg assms(2,3)] raw show ?thesis by simp
qed

lemma enumerate_returns_chains:
  "enumerate_buckets d n ws acc = Some (Inr r) \<Longrightarrow>
   n \<le> length ws \<and>
   (\<exists>ess. list_all2 (\<lambda>t es. chain_seg d t es 0) (take n ws) ess \<and> r = acc @ concat ess)"
proof (induction d n ws acc rule: enumerate_buckets.induct)
  case (1 d ws acc)
  then show ?case by simp
next
  case (2 d n acc)
  then show ?case by simp
next
  case (3 d n raw ws acc)
  show ?case
  proof (cases "raw = 0")
    case True
    with "3.prems" have "enumerate_buckets d n ws acc = Some (Inr r)" by simp
    from "3.IH"(2) [OF _ this] True obtain ess where n: "n \<le> length ws"
      and ess: "list_all2 (\<lambda>t es. chain_seg d t es 0) (take n ws) ess" "r = acc @ concat ess"
      by auto
    from True ess have "list_all2 (\<lambda>t es. chain_seg d t es 0) (take (Suc n) (raw # ws)) ([] # ess)
        \<and> r = acc @ concat ([] # ess)" by simp
    with n show ?thesis by (metis Suc_le_mono length_Cons)
  next
    case False
    with "3.prems" obtain e acc' where de: "d raw = Inr e"
      and w: "walk_all d e acc = Some (Inr acc')"
      and rest: "enumerate_buckets d n ws acc' = Some (Inr r)"
      by (auto split: sum.splits option.splits)
    from walk_all_returns_chain [OF w] obtain es where es: "chain_seg d (next_tok e) es 0"
      and acc': "acc' = acc @ e # es" by auto
    from "3.IH"(1) [OF False de w _ rest] obtain ess where n: "n \<le> length ws"
      and ess: "list_all2 (\<lambda>t es. chain_seg d t es 0) (take n ws) ess" "r = acc' @ concat ess"
      by auto
    from False de es ess acc'
    have "list_all2 (\<lambda>t es. chain_seg d t es 0) (take (Suc n) (raw # ws)) ((e # es) # ess)
        \<and> r = acc @ concat ((e # es) # ess)" by simp
    with n show ?thesis by (metis Suc_le_mono length_Cons)
  qed
qed

text \<open>The bucket index is never negative, so the seek position is inside or past the table.\<close>

lemma bucket_index_nonneg: "0 \<le> bucket_index h ts"
  by (simp add: bucket_index_def)

subsection \<open>Claims\<close>

text \<open>
  C9. For every 32-bit hash and every table size that is a power of two, the bucket
  index \<open>hash & (tableSize - 1)\<close> is at least 0 and less than the table size.
\<close>

theorem bucket_index_range:
  "ts = 2 ^ k \<Longrightarrow> 0 \<le> bucket_index h ts \<and> bucket_index h ts < ts"
  unfolding bucket_index_def
  by (simp add: flip: mask_eq_exp_minus_1 take_bit_eq_mask)

theorem bucket_index_range_witness:
  "(65536::int) = 2 ^ 16 \<and> 0 \<le> bucket_index 0xDEADBEEF 65536
   \<and> bucket_index 0xDEADBEEF 65536 < 65536 \<and> bucket_index 0xDEADBEEF 65536 = 0xBEEF"
  using bucket_index_range [of 65536 16 "0xDEADBEEF"]
  by (simp add: bucket_index_def)

text \<open>
  C3. Full enumeration (\<open>parse\<close> without urls): when the index file holds the
  \<open>tableSize\<close> bucket heads and \<open>ess\<close> lists, bucket by bucket, the chain that starts
  at the head (the entries reached by following \<open>next\<close> until it is 0), \<open>parse\<close>
  returns the concatenation of these chains: every entry of every chain, the head first,
  in the order of discovery. The chain of a zero head is empty (\<open>chain_seg_zero\<close>), so
  such a bucket contributes nothing. Every run of the enumeration that returns a list is
  of this form (\<open>enumerate_returns_chains\<close>).
\<close>

theorem full_enumeration_in_order:
  assumes "btype c = INDEX"
    and "nat (tableSize c) \<le> length (table c)"
    and "list_all2 (\<lambda>t es. chain_seg (decode c) t es 0) (take (nat (tableSize c)) (table c)) ess"
  shows "parse sfh c None = Some (Inr \<lparr>cache = concat ess, stderr = []\<rparr>)"
  using assms enumerate_chains [of "nat (tableSize c)" "table c" "decode c" ess "[]"]
  by (simp add: parse_def)

theorem full_enumeration_in_order_witness:
  "parse sample_hash sample_dir None = Some (Inr \<lparr>cache = [ent1, ent2, ent3], stderr = []\<rparr>)"
  using full_enumeration_in_order [of sample_dir "[[], [], [ent1, ent2, ent3], []]" sample_hash]
  by (simp add: sample_dir_def sample_decode_def ent1_def ent2_def ent3_def)

text \<open>
  C1. Targeted lookup: when the head token of the url's bucket is initialized and the
  chain from it decodes as \<open>es\<close> (up to its end, or at least up to an entry whose stored
  hash is the hash of the url), the lookup appends to the result the first entry of \<open>es\<close>
  whose stored hash equals the hash of the url, and nothing when there is none. In the
  chain with the hashes 2, 6, 10 a url with the hash 6 yields the second entry.
\<close>

theorem targeted_lookup_first_match:
  assumes "read_bucket (table c) (bucket_index (sfh url) (tableSize c)) = Inr addr"
    and "addr AND 0x80000000 \<noteq> 0"
    and "chain_seg (decode c) addr es t"
    and "t = 0 \<or> (\<exists>x \<in> set es. hash x = sfh url)"
  shows "lookup_url sfh c url s =
     Some (Inr (case find (\<lambda>x. hash x = sfh url) es of
                  None \<Rightarrow> s
                | Some m \<Rightarrow> s\<lparr>cache := cache s @ [m]\<rparr>))"
proof (cases es)
  case Nil
  with assms show ?thesis by auto
next
  case (Cons e es')
  with assms(3) have de: "decode c addr = Inr e"
    and seg: "chain_seg (decode c) (next_tok e) es' t" by simp_all
  from assms(4) Cons have "t = 0 \<or> (\<exists>x \<in> set (e # es'). hash x = sfh url)" by simp
  note w = walk_hash_chain [OF seg this]
  show ?thesis
  proof (cases "find (\<lambda>x. hash x = sfh url) es")
    case None
    then have "\<forall>x \<in> set es. hash x \<noteq> sfh url" by (simp add: find_None_iff)
    then have "hash (last es) \<noteq> sfh url" using Cons by (metis last_in_set list.distinct(1))
    with None w Cons assms(1,2) de show ?thesis
      by (simp add: lookup_url_def Let_def)
  next
    case (Some m)
    then have "hash m = sfh url" by (auto simp: find_Some_iff)
    with Some w Cons assms(1,2) de show ?thesis
      by (simp add: lookup_url_def Let_def)
  qed
qed

theorem targeted_lookup_first_match_witness:
  "lookup_url sample_hash sample_dir ''https://a.example/two'' \<lparr>cache = [], stderr = []\<rparr> =
     Some (Inr \<lparr>cache = [ent2], stderr = []\<rparr>) \<and>
   parse sample_hash sample_dir (Some [''https://a.example/two'']) =
     Some (Inr \<lparr>cache = [ent2], stderr = []\<rparr>) \<and>
   lookup_url sample_hash
     (sample_dir\<lparr>decode := (\<lambda>t. if t = 0x80000003 then Inl CorruptEntry else sample_decode t)\<rparr>)
     ''https://a.example/two'' \<lparr>cache = [], stderr = []\<rparr> =
     Some (Inr \<lparr>cache = [ent2], stderr = []\<rparr>)"
  using targeted_lookup_first_match
    [of sample_dir sample_hash "''https://a.example/two''" "0x80000001" "[ent1, ent2, ent3]" 0
        "\<lparr>cache = [], stderr = []\<rparr>"]
    targeted_lookup_first_match
    [of "sample_dir\<lparr>decode := (\<lambda>t. if t = 0x80000003 then Inl CorruptEntry else sample_decode t)\<rparr>"
        sample_hash "''https://a.example/two''" "0x80000001" "[ent1, ent2]" "0x80000003"
        "\<lparr>cache = [], stderr = []\<rparr>"]
  by (simp add: parse_def sample_dir_def sample_decode_def sample_hash_def ent1_def ent2_def
      ent3_def read_bucket_def bucket_index_def)

text \<open>
  C4, as the code has it. \<open>parse\<close> has no handler around the decoding of an entry: in
  a full enumeration, when the buckets before some bucket hold chains that decode, and
  in that bucket the head, or the successor of an entry of its chain, does not decode,
  the error leaves \<open>parse\<close> and no entry is returned.
\<close>

theorem decode_error_aborts_enumeration:
  assumes "btype c = INDEX"
    and "table c = pre @ raw # ws"
    and "length pre < nat (tableSize c)"
    and "list_all2 (\<lambda>t es. chain_seg (decode c) t es 0) pre ess"
    and "chain_seg (decode c) raw es t"
    and "t \<noteq> 0"
    and "decode c t = Inl err"
  shows "parse sfh c None = Some (Inl err)"
proof -
  from assms(3) obtain m where m: "nat (tableSize c) - length pre = Suc m"
    by (cases "nat (tableSize c) - length pre") auto
  from assms(3) have le: "length pre \<le> nat (tableSize c)" by simp
  have "enumerate_buckets (decode c) (nat (tableSize c)) (table c) [] =
        enumerate_buckets (decode c) (Suc m) (raw # ws) ([] @ concat ess)"
    unfolding assms(2) m [symmetric] by (rule enumerate_prefix [OF assms(4) le])
  also have "\<dots> = Some (Inl err)"
    by (rule enumerate_decode_error [OF assms(5,6,7)])
  finally show ?thesis using assms(1) by (simp add: parse_def)
qed

theorem decode_error_aborts_enumeration_witness:
  "parse sample_hash (sample_dir\<lparr>table := [0, 0x80000001, 0x80000009, 0]\<rparr>) None =
     Some (Inl CorruptEntry)"
  using decode_error_aborts_enumeration
    [of "sample_dir\<lparr>table := [0, 0x80000001, 0x80000009, 0]\<rparr>" "[0, 0x80000001]"
        "0x80000009" "[0]" "[[], [ent1, ent2, ent3]]" "[]" "0x80000009" CorruptEntry sample_hash]
  by (simp add: sample_dir_def sample_decode_def ent1_def ent2_def ent3_def)

text \<open>
  C4, as stated, fails: in \<open>damaged_dir\<close> the record of bucket 0 does not decode and
  bucket 1 holds a chain of three entries that does; \<open>parse\<close> raises the error of
  bucket 0 and returns none of the three entries.
\<close>

theorem decode_error_counterexample:
  "chain_seg (decode damaged_dir) 0x80000001 [ent1, ent2, ent3] 0 \<and>
   parse sample_hash damaged_dir None = Some (Inl CorruptEntry)"
  by (simp add: parse_def damaged_dir_def sample_decode_def ent1_def ent2_def ent3_def
      enumerate_buckets_numeral)

text \<open>
  C2, as the code has it. Neither loop counts its hops and neither reports a corrupt
  chain. On a chain whose \<open>next\<close> fields reach 0 both loops return: the enumeration
  with every entry of the chain, the lookup with the first entry that has the hash, or
  with the last entry. On a chain whose \<open>next\<close> fields form a cycle the enumeration
  does not return, and the lookup does not return unless an entry of the cycle has the
  hash.
\<close>

theorem traversal_has_no_bound:
  "(chain_seg d (next_tok e) es 0 \<longrightarrow>
      walk_all d e acc = Some (Inr (acc @ e # es)) \<and>
      walk_hash d h e =
        Some (Inr (case find (\<lambda>x. hash x = h) (e # es) of Some m \<Rightarrow> m | None \<Rightarrow> last (e # es))))
   \<and> (chain_seg d t (e # es) t \<longrightarrow>
      walk_all d e acc = None \<and>
      ((\<forall>x \<in> set (e # es). hash x \<noteq> h) \<longrightarrow> walk_hash d h e = None))"
  using walk_all_chain [of d e es acc] walk_hash_chain [of d e es 0 h]
    walk_all_cycle [of d t e es acc] walk_hash_cycle [of d t e es h]
  by blast

theorem traversal_has_no_bound_witness:
  "walk_all sample_decode ent1 [] = Some (Inr [ent1, ent2, ent3]) \<and>
   walk_hash sample_decode 7 ent1 = Some (Inr ent3) \<and>
   walk_all cyclic_decode cyc1 [] = None \<and>
   walk_hash cyclic_decode 7 cyc1 = None"
  using traversal_has_no_bound [of sample_decode ent1 "[ent2, ent3]" "[]" 7 0]
    traversal_has_no_bound [of cyclic_decode cyc1 "[cyc2]" "[]" 7 "0x80000011"]
  by (simp add: sample_decode_def cyclic_decode_def ent1_def ent2_def ent3_def cyc1_def cyc2_def)

text \<open>
  C2, as stated, fails: in \<open>cyclic_dir\<close> the two entries of bucket 0 point at each
  other, and \<open>parse\<close> returns neither for the full enumeration nor for the lookup of
  a url whose hash is not in the cycle; no error is reported, the loop goes on.
\<close>

theorem cyclic_chain_counterexample:
  "parse sample_hash cyclic_dir None = None \<and>
   parse sample_hash cyclic_dir (Some [''https://a.example/absent'']) = None"
proof -
  have c: "chain_seg cyclic_decode 0x80000011 [cyc1, cyc2] 0x80000011"
    by (simp add: cyclic_decode_def cyc1_def cyc2_def)
  have "walk_all cyclic_decode cyc1 [] = None"
    by (rule walk_all_cycle [OF c])
  moreover have "walk_hash cyclic_decode 7 cyc1 = None"
    by (rule walk_hash_cycle [OF c]) (simp add: cyc1_def cyc2_def)
  ultimately show ?thesis
    by (simp add: parse_def cyclic_dir_def cyclic_decode_def lookup_url_def sample_hash_def
        bucket_index_def read_bucket_def)
qed

text \<open>
  C5, as the code has it. The targeted lookup tests the top bit of the head token: when
  it is clear no entry is decoded (the result is the same for every decoder), no entry
  is added, the url is reported as not in the cache and nothing is raised. The full
  enumeration tests the head token against 0 only: a zero head is skipped, and any other
  head, also one with its top bit clear, is handed to the decoder, so that the bucket
  yields the decoder's error or the decoded chain.
\<close>

theorem unused_head_token:
  "(read_bucket (table c) (bucket_index (sfh url) (tableSize c)) = Inr addr \<and>
    addr AND 0x80000000 = 0 \<longrightarrow>
      lookup_url sfh (c\<lparr>decode := d'\<rparr>) url s =
        Some (Inr (s\<lparr>stderr := stderr s @ [NotInCache url]\<rparr>)))
   \<and> enumerate_buckets d (Suc n) (0 # ws) acc = enumerate_buckets d n ws acc
   \<and> (raw \<noteq> 0 \<and> d raw = Inl err \<longrightarrow>
        enumerate_buckets d (Suc n) (raw # ws) acc = Some (Inl err))
   \<and> (raw \<noteq> 0 \<and> d raw = Inr e \<and> next_tok e = 0 \<longrightarrow>
        enumerate_buckets d (Suc n) (raw # ws) acc = enumerate_buckets d n ws (acc @ [e]))"
  by (auto simp: lookup_url_def Let_def walk_all.simps)

theorem unused_head_token_witness:
  "lookup_url sample_hash (unused_dir lenient_decode) ''https://a.example/absent''
      \<lparr>cache = [], stderr = []\<rparr> =
     Some (Inr \<lparr>cache = [], stderr = [NotInCache ''https://a.example/absent'']\<rparr>) \<and>
   enumerate_buckets sample_decode (Suc 0) [0x00000001] [] = Some (Inl MalformedAddress) \<and>
   enumerate_buckets lenient_decode (Suc 0) [0x00000001] [] = Some (Inr [ent3])"
  using unused_head_token [of "unused_dir sample_decode" sample_hash "''https://a.example/absent''"
        "0x00000001" lenient_decode "\<lparr>cache = [], stderr = []\<rparr>" sample_decode 0 "[]" "[]"
        "0x00000001" MalformedAddress ent3]
    unused_head_token [of "unused_dir sample_decode" sample_hash "''https://a.example/absent''"
        "0x00000001" lenient_decode "\<lparr>cache = [], stderr = []\<rparr>" lenient_decode 0 "[]" "[]"
        "0x00000001" MalformedAddress ent3]
  by (simp add: unused_dir_def sample_decode_def lenient_decode_def sample_hash_def ent3_def
      read_bucket_def bucket_index_def)

text \<open>
  C5, as stated, fails for the full enumeration: the head token 1 has its top bit clear,
  yet \<open>parse\<close> decodes it. With a decoder that rejects the token the error leaves
  \<open>parse\<close>; with one that accepts it the decoded entry is returned.
\<close>

theorem unused_head_counterexample:
  "(0x00000001 :: token) AND 0x80000000 = 0 \<and>
   parse sample_hash (unused_dir sample_decode) None = Some (Inl MalformedAddress) \<and>
   parse sample_hash (unused_dir lenient_decode) None =
     Some (Inr \<lparr>cache = [ent3], stderr = []\<rparr>)"
  by (simp add: parse_def unused_dir_def sample_decode_def lenient_decode_def ent3_def
      walk_all.simps)

subsection \<open>Targeted lookup over a list of urls\<close>

lemma lookup_url_result:
  assumes "lookup_url sfh c u s = Some (Inr s')"
  shows "set (stderr s) \<subseteq> set (stderr s') \<and>
    (\<forall>e \<in> set (cache s'). e \<in> set (cache s) \<or>
       (hash e = sfh u \<and>
        (\<exists>a. read_bucket (table c) (bucket_index (sfh u) (tableSize c)) = Inr a \<and>
             a AND 0x80000000 \<noteq> 0)))"
  using assms
  by (auto simp: lookup_url_def Let_def split: sum.splits if_splits option.splits)

lemma lookup_urls_result:
  assumes "lookup_urls sfh c us s = Some (Inr s')"
  shows "set (stderr s) \<subseteq> set (stderr s') \<and>
    (\<forall>e \<in> set (cache s'). e \<in> set (cache s) \<or>
       (\<exists>u \<in> set us. hash e = sfh u \<and>
        (\<exists>a. read_bucket (table c) (bucket_index (sfh u) (tableSize c)) = Inr a \<and>
             a AND 0x80000000 \<noteq> 0)))"
  using assms
proof (induction us arbitrary: s)
  case Nil
  then show ?case by simp
next
  case (Cons u us)
  from Cons.prems obtain s1 where s1: "lookup_url sfh c u s = Some (Inr s1)"
    and rest: "lookup_urls sfh c us s1 = Some (Inr s')"
    by (auto split: option.splits sum.splits)
  from lookup_url_result [OF s1] Cons.IH [OF rest] show ?case
    by (simp only: list.set) blast
qed

lemma lookup_urls_miss:
  assumes "lookup_urls sfh c us s = Some (Inr s')"
    and "url \<in> set us"
    and "read_bucket (table c) (bucket_index (sfh url) (tableSize c)) = Inr addr"
    and "addr AND 0x80000000 = 0"
  shows "NotInCache url \<in> set (stderr s')"
  using assms(1,2)
proof (induction us arbitrary: s)
  case Nil
  then show ?case by simp
next
  case (Cons u us)
  from Cons.prems(1) obtain s1 where s1: "lookup_url sfh c u s = Some (Inr s1)"
    and rest: "lookup_urls sfh c us s1 = Some (Inr s')"
    by (auto split: option.splits sum.splits)
  show ?case
  proof (cases "u = url")
    case True
    with s1 assms(3,4) have "NotInCache url \<in> set (stderr s1)"
      by (auto simp: lookup_url_def Let_def)
    with lookup_urls_result [OF rest] show ?thesis by blast
  next
    case False
    with Cons.prems(2) have "url \<in> set us" by simp
    from Cons.IH [OF rest this] show ?thesis .
  qed
qed

text \<open>
  C6. When the bucket selected by the hash of a url holds a head token whose top bit is
  clear, the lookup of that url returns without raising, adds no entry and prints that
  the url is not in the cache; \<open>parse\<close> on that url alone returns the empty list.
  Whenever \<open>parse\<close> on a list with that url returns, the url has been reported and no
  returned entry carries its hash.
\<close>

theorem uninitialized_bucket_is_miss:
  assumes "read_bucket (table c) (bucket_index (sfh url) (tableSize c)) = Inr addr"
    and "addr AND 0x80000000 = 0"
  shows "lookup_url sfh c url s = Some (Inr (s\<lparr>stderr := stderr s @ [NotInCache url]\<rparr>))
    \<and> (btype c = INDEX \<longrightarrow>
         parse sfh c (Some [url]) = Some (Inr \<lparr>cache = [], stderr = [NotInCache url]\<rparr>))
    \<and> (url \<in> set urls \<and> parse sfh c (Some urls) = Some (Inr s') \<longrightarrow>
         NotInCache url \<in> set (stderr s') \<and> (\<forall>e \<in> set (cache s'). hash e \<noteq> sfh url))"
proof -
  have one: "\<And>s. lookup_url sfh c url s = Some (Inr (s\<lparr>stderr := stderr s @ [NotInCache url]\<rparr>))"
    using assms by (simp add: lookup_url_def Let_def)
  have many: "NotInCache url \<in> set (stderr s') \<and> (\<forall>e \<in> set (cache s'). hash e \<noteq> sfh url)"
    if "url \<in> set urls" and p: "parse sfh c (Some urls) = Some (Inr s')"
  proof -
    from p have l: "lookup_urls sfh c urls \<lparr>cache = [], stderr = []\<rparr> = Some (Inr s')"
      by (simp add: parse_def split: if_splits)
    from lookup_urls_miss [OF l that(1) assms] have "NotInCache url \<in> set (stderr s')" .
    moreover from lookup_urls_result [OF l] assms
    have "\<forall>e \<in> set (cache s'). hash e \<noteq> sfh url" by fastforce
    ultimately show ?thesis ..
  qed
  from one many show ?thesis by (simp add: parse_def)
qed

theorem uninitialized_bucket_is_miss_witness:
  "lookup_url sample_hash sample_dir ''https://a.example/absent'' \<lparr>cache = [], stderr = []\<rparr> =
     Some (Inr \<lparr>cache = [], stderr = [NotInCache ''https://a.example/absent'']\<rparr>) \<and>
   parse sample_hash sample_dir (Some [''https://a.example/absent'']) =
     Some (Inr \<lparr>cache = [], stderr = [NotInCache ''https://a.example/absent'']\<rparr>) \<and>
   parse sample_hash sample_dir (Some [''https://a.example/two'', ''https://a.example/absent'']) =
     Some (Inr \<lparr>cache = [ent2], stderr = [NotInCache ''https://a.example/absent'']\<rparr>)"
proof -
  have w: "walk_hash sample_decode 6 ent1 = Some (Inr ent2)"
    using walk_hash_chain [of sample_decode ent1 "[ent2, ent3]" 0 6]
    by (simp add: sample_decode_def ent1_def ent2_def ent3_def)
  have two: "lookup_url sample_hash sample_dir ''https://a.example/two'' \<lparr>cache = [], stderr = []\<rparr>
      = Some (Inr \<lparr>cache = [ent2], stderr = []\<rparr>)"
    using w
    by (simp add: lookup_url_def sample_dir_def sample_decode_def sample_hash_def
        read_bucket_def bucket_index_def ent2_def)
  show ?thesis
    using two uninitialized_bucket_is_miss
      [of sample_dir sample_hash "''https://a.example/absent''" 0]
    by (simp add: parse_def sample_dir_def sample_hash_def read_bucket_def bucket_index_def)
qed

subsection \<open>The index of ChromeCache and the body accessor\<close>

text \<open>
  The substring test is Python's \<open>in\<close>; the normalised key of a story url is its
  prefix up to the chapter number; the index holds, for each entry whose key contains
  fanfiction.net, the key and the normalised key, and nothing else; a url that is not in
  the index gets \<open>None\<close>.
\<close>

lemma starts_with_iff: "starts_with p s \<longleftrightarrow> (\<exists>b. s = p @ b)"
  by (induction p s rule: starts_with.induct) auto

lemma str_contains_iff: "str_contains p s \<longleftrightarrow> (\<exists>a b. s = a @ p @ b)"
proof (induction s)
  case Nil
  then show ?case by auto
next
  case (Cons c cs)
  show ?case
  proof
    assume "str_contains p (c # cs)"
    then consider "starts_with p (c # cs)" | "str_contains p cs" by auto
    then show "\<exists>a b. c # cs = a @ p @ b"
    proof cases
      case 1
      then obtain b where "c # cs = p @ b" by (auto simp: starts_with_iff)
      then have "c # cs = [] @ p @ b" by simp
      then show ?thesis by blast
    next
      case 2
      with Cons.IH obtain a b where "cs = a @ p @ b" by blast
      then have "c # cs = (c # a) @ p @ b" by simp
      then show ?thesis by blast
    qed
  next
    assume "\<exists>a b. c # cs = a @ p @ b"
    then obtain a b where ab: "c # cs = a @ p @ b" by blast
    show "str_contains p (c # cs)"
    proof (cases a)
      case Nil
      with ab have "starts_with p (c # cs)" by (auto simp: starts_with_iff)
      then show ?thesis by simp
    next
      case (Cons x a')
      with ab have "cs = a' @ p @ b" by simp
      with Cons.IH have "str_contains p cs" by blast
      then show ?thesis by simp
    qed
  qed
qed

lemma normkey_story:
  "normkey ''https://www.fanfiction.net/s/123/45/Some-Title'' = ''https://www.fanfiction.net/s/123/45/''"
  by (simp add: normkey_def story_pat_def match_tail_def is_digit_def newline_def)

lemma normkey_other:
  "normkey ''https://www.fanfiction.net/u/123/Author'' = ''https://www.fanfiction.net/u/123/Author''"
  by (simp add: normkey_def story_pat_def match_tail_def is_digit_def newline_def)

lemma normkey_bare:
  "normkey ''https://www.fanfiction.net/s/123/45/'' = ''https://www.fanfiction.net/s/123/45/''"
  by (simp add: normkey_def story_pat_def match_tail_def is_digit_def newline_def)

lemma index_entries_dom:
  "dom (index_entries es hc) =
     dom hc \<union> {k. \<exists>e \<in> set es. str_contains ''fanfiction.net'' (key e) \<and>
                     (k = key e \<or> k = normkey (key e))}"
  by (induction es arbitrary: hc) auto

lemma scan_data_find:
  "scan_data cd e xs =
     (case find (\<lambda>x. dtype x = UNKNOWN) xs of
        None \<Rightarrow> (Inr None, [])
      | Some x \<Rightarrow> scan_data cd e [x])"
  by (induction xs) auto

lemma get_cached_file_absent:
  "hash_cache cc url = None \<Longrightarrow> get_cached_file cd cc url = (Inr None, [])"
  by (simp add: get_cached_file_def)

text \<open>
  C7, as the code has it. \<open>get_cached_file\<close> calls the decompressor with no handler
  around it: when the body of an entry declared \<open>gzip\<close> does not inflate, the
  exception leaves the accessor, which returns no bytes at all; the same holds for
  \<open>br\<close>, after the timing line of the wrapper has been printed.
\<close>

theorem failed_inflate_raises:
  assumes "hash_cache cc url = Some e"
    and "find (\<lambda>x. dtype x = UNKNOWN) (data e) = Some x"
    and "content x = Inr b"
    and "httpHeader e = Some hs"
  shows "(hs ''content-encoding'' = Some ''gzip'' \<and> gzip_decompress cd b = None \<longrightarrow>
            get_cached_file cd cc url = (Inl DecodeError, []))
       \<and> (hs ''content-encoding'' = Some ''br'' \<and> brotli_decompress cd b = None \<longrightarrow>
            get_cached_file cd cc url = (Inl DecodeError, [TimeLine]))"
proof -
  from assms(2) have u: "dtype x = UNKNOWN" by (auto simp: find_Some_iff)
  from assms u show ?thesis
    by (simp add: get_cached_file_def scan_data_find [of cd e "data e"] decompressed_def)
qed

theorem failed_inflate_raises_witness:
  "get_cached_file sample_codecs (ChromeCache [gzip_entry, br_entry])
      ''https://www.fanfiction.net/s/12/3/'' = (Inl DecodeError, []) \<and>
   get_cached_file sample_codecs (ChromeCache [gzip_entry, br_entry])
      ''https://www.fanfiction.net/s/12/4/'' = (Inl DecodeError, [TimeLine])"
proof -
  let ?cc = "ChromeCache [gzip_entry, br_entry]"
  have g: "hash_cache ?cc ''https://www.fanfiction.net/s/12/3/'' = Some gzip_entry"
    and b: "hash_cache ?cc ''https://www.fanfiction.net/s/12/4/'' = Some br_entry"
    by (simp_all add: ChromeCache_def gzip_entry_def br_entry_def body_entry_def normkey_def
        story_pat_def match_tail_def is_digit_def newline_def)
  show ?thesis
    using failed_inflate_raises [OF g, of "\<lparr>dtype = UNKNOWN, content = Inr ''truncated''\<rparr>"
        "''truncated''" "[''content-encoding'' \<mapsto> ''gzip'']" sample_codecs]
      failed_inflate_raises [OF b, of "\<lparr>dtype = UNKNOWN, content = Inr ''truncated''\<rparr>"
        "''truncated''" "[''content-encoding'' \<mapsto> ''br'']" sample_codecs]
    by (simp add: gzip_entry_def br_entry_def body_entry_def sample_codecs_def)
qed

text \<open>
  C7, as stated, fails: the bodies of \<open>gzip_entry\<close> and \<open>br_entry\<close> do not
  inflate, and the accessor raises instead of returning the stored bytes.
\<close>

theorem failed_inflate_counterexample:
  "content (data gzip_entry ! 1) = Inr ''truncated'' \<and>
   get_cached_file sample_codecs (ChromeCache [gzip_entry, br_entry])
      ''https://www.fanfiction.net/s/12/3/Title'' = (Inl DecodeError, []) \<and>
   content (data br_entry ! 1) = Inr ''truncated'' \<and>
   get_cached_file sample_codecs (ChromeCache [gzip_entry, br_entry])
      ''https://www.fanfiction.net/s/12/4/Title'' = (Inl DecodeError, [TimeLine])"
  by (simp add: get_cached_file_def ChromeCache_def gzip_entry_def br_entry_def body_entry_def
      normkey_def story_pat_def match_tail_def is_digit_def newline_def sample_codecs_def
      decompressed_def)

text \<open>
  C8, as the code has it. When the entry has no header object, no \<open>content-encoding\<close>
  header, or a value of it other than \<open>gzip\<close> and \<open>br\<close> (\<open>identity\<close> among
  them), the accessor returns the stored bytes unchanged, prints nothing and does not
  fail; no warning goes with the bytes.
\<close>

theorem other_encoding_returns_raw:
  assumes "hash_cache cc url = Some e"
    and "find (\<lambda>x. dtype x = UNKNOWN) (data e) = Some x"
    and "content x = Inr b"
    and "\<forall>hs. httpHeader e = Some hs \<longrightarrow>
           hs ''content-encoding'' \<noteq> Some ''gzip'' \<and> hs ''content-encoding'' \<noteq> Some ''br''"
  shows "get_cached_file cd cc url = (Inr (Some b), [])"
proof -
  from assms(2) have u: "dtype x = UNKNOWN" by (auto simp: find_Some_iff)
  from assms u show ?thesis
    by (auto simp: get_cached_file_def scan_data_find [of cd e "data e"]
        split: option.splits)
qed

theorem other_encoding_returns_raw_witness:
  "get_cached_file sample_codecs (ChromeCache [deflate_entry])
      ''https://www.fanfiction.net/s/12/5/'' = (Inr (Some ''deflated''), []) \<and>
   get_cached_file sample_codecs
      (ChromeCache [body_entry ''https://www.fanfiction.net/s/12/6/Title'' ''identity'' ''plain''])
      ''https://www.fanfiction.net/s/12/6/'' = (Inr (Some ''plain''), []) \<and>
   get_cached_file sample_codecs
      (ChromeCache [foreign_entry\<lparr>key := ''https://www.fanfiction.net/s/12/7/Title''\<rparr>])
      ''https://www.fanfiction.net/s/12/7/'' = (Inr (Some ''another site''), [])"
proof -
  let ?id = "body_entry ''https://www.fanfiction.net/s/12/6/Title'' ''identity'' ''plain''"
  let ?no = "foreign_entry\<lparr>key := ''https://www.fanfiction.net/s/12/7/Title''\<rparr>"
  have d: "hash_cache (ChromeCache [deflate_entry]) ''https://www.fanfiction.net/s/12/5/''
      = Some deflate_entry"
    and i: "hash_cache (ChromeCache [?id]) ''https://www.fanfiction.net/s/12/6/'' = Some ?id"
    and n: "hash_cache (ChromeCache [?no]) ''https://www.fanfiction.net/s/12/7/'' = Some ?no"
    by (simp_all add: ChromeCache_def deflate_entry_def foreign_entry_def body_entry_def
        normkey_def story_pat_def match_tail_def is_digit_def newline_def)
  show ?thesis
    using other_encoding_returns_raw [OF d, of "\<lparr>dtype = UNKNOWN, content = Inr ''deflated''\<rparr>"
        "''deflated''" sample_codecs]
      other_encoding_returns_raw [OF i, of "\<lparr>dtype = UNKNOWN, content = Inr ''plain''\<rparr>"
        "''plain''" sample_codecs]
      other_encoding_returns_raw [OF n, of "\<lparr>dtype = UNKNOWN, content = Inr ''another site''\<rparr>"
        "''another site''" sample_codecs]
    by (simp add: deflate_entry_def foreign_entry_def body_entry_def)
qed

text \<open>
  C8, as stated, fails in its warning: for \<open>content-encoding: deflate\<close> the accessor
  returns the stored bytes and emits nothing.
\<close>

theorem unsupported_encoding_counterexample:
  "get_cached_file sample_codecs (ChromeCache [deflate_entry])
      ''https://www.fanfiction.net/s/12/5/Title'' = (Inr (Some ''deflated''), [])"
  by (simp add: get_cached_file_def ChromeCache_def deflate_entry_def body_entry_def
      normkey_def story_pat_def match_tail_def is_digit_def newline_def)

text \<open>
  C10. The entry \<open>foreign_entry\<close> passes the filter, since its key mentions
  fanfiction.net in the query string. The two dots of the pattern are not escaped, so
  the pattern matches the host \<open>www.fanfiction-net\<close>, and the entry is indexed under a
  normalised key that does not contain fanfiction.net: for that url the accessor
  returns a body instead of \<open>None\<close>.
\<close>

theorem normkey_escapes_filter:
  "str_contains ''fanfiction.net'' (key foreign_entry) \<and>
   normkey (key foreign_entry) = ''https://www.fanfiction-net/s/12/3/'' \<and>
   \<not> str_contains ''fanfiction.net'' ''https://www.fanfiction-net/s/12/3/'' \<and>
   get_cached_file sample_codecs (ChromeCache [foreign_entry])
      ''https://www.fanfiction-net/s/12/3/'' = (Inr (Some ''another site''), [])"
  by (simp add: get_cached_file_def ChromeCache_def foreign_entry_def
      normkey_def story_pat_def match_tail_def is_digit_def newline_def)

end
